theory Spec2Isabelle
  imports Main "HOL-Library.Word"
begin

section \<open>HKDF (RFC 5869): the package hkdf of src/hkdf/hkdf.go\<close>

subsection \<open>Bytes, slices and the hash capability\<close>

text \<open>
  A Go \<^verbatim>\<open>byte\<close> is an 8-bit word, so the arithmetic on the field \<^verbatim>\<open>counter\<close> wraps
  modulo 256 as it does in Go. A \<^verbatim>\<open>[]byte\<close> is a list of bytes. The only slice whose
  nil-ness the package tests is \<^verbatim>\<open>salt\<close> in \<^verbatim>\<open>Extract\<close>; it is a
  \<open>bytes option\<close>, \<open>None\<close> being nil and \<open>Some []\<close> the empty, non-nil slice. For every
  other slice nil and empty behave alike (\<^verbatim>\<open>len\<close>, \<^verbatim>\<open>copy\<close>, \<^verbatim>\<open>Write\<close>) and both are \<open>[]\<close>.

  Lengths and \<^verbatim>\<open>Size()\<close> are Go \<^verbatim>\<open>int\<close>s that are never negative; they are natural
  numbers here. The product \<^verbatim>\<open>int(255-f.counter+1)*f.size\<close> is at most 255 digest lengths,
  far below the 64-bit range for any digest that fits in memory, so it is not wrapped.
\<close>

type_synonym byte = "8 word"
type_synonym bytes = "byte list"

text \<open>
  The argument \<^verbatim>\<open>hash func() hash.Hash\<close> is used in two ways only: \<^verbatim>\<open>hash().Size()\<close>,
  and through \<^verbatim>\<open>hmac.New(hash, key)\<close> of the standard library, whose instance is written
  a message and asked for \<^verbatim>\<open>Sum\<close>. Both are outside this package and are taken as a
  parameter: \<open>Size\<close> is the digest length, \<open>hmac h key msg\<close> the HMAC of \<open>msg\<close> under
  \<open>key\<close>. The \<^verbatim>\<open>Size()\<close> of an HMAC instance is that of its hash.
\<close>

record hash =
  Size :: nat
  hmac :: "bytes \<Rightarrow> bytes \<Rightarrow> bytes"

text \<open>
  The contract of the interface \<^verbatim>\<open>hash.Hash\<close>: \<^verbatim>\<open>Size\<close> returns the number of bytes
  \<^verbatim>\<open>Sum\<close> will return.
\<close>

definition hash_ok :: "hash \<Rightarrow> bool" where
  "hash_ok h \<longleftrightarrow> (\<forall>key msg. length (hmac h key msg) = Size h)"

subsection \<open>Extract\<close>

definition Extract :: "hash \<Rightarrow> bytes \<Rightarrow> bytes option \<Rightarrow> bytes" where
  "Extract h secret salt =
     (let salt' = (case salt of None \<Rightarrow> replicate (Size h) 0 | Some s \<Rightarrow> s)
      in hmac h salt' secret)"

subsection \<open>The reader\<close>

text \<open>
  The struct \<^verbatim>\<open>hkdf\<close>. The field \<^verbatim>\<open>expander\<close> is an HMAC instance keyed once; \<^verbatim>\<open>Read\<close>
  uses it only as \<^verbatim>\<open>Reset\<close>, three \<^verbatim>\<open>Write\<close>s and \<^verbatim>\<open>Sum\<close>, that is as a function from
  the bytes written to the digest. The field \<^verbatim>\<open>size\<close> is \<open>size_hk\<close> here.

  \<^verbatim>\<open>buf\<close> is a slice of the array of \<^verbatim>\<open>prev\<close>, and \<^verbatim>\<open>Sum(f.prev[:0])\<close> may overwrite that
  array. \<^verbatim>\<open>Read\<close> copies out of \<^verbatim>\<open>buf\<close> before it computes a block and assigns \<^verbatim>\<open>buf\<close> anew
  right after, so no read of \<^verbatim>\<open>buf\<close> sees overwritten bytes and both fields are values.
\<close>

record hkdf =
  expander :: "bytes \<Rightarrow> bytes"
  size_hk :: nat
  info :: bytes
  counter :: byte
  prev :: bytes
  buf :: bytes

datatype error = EntropyLimit

text \<open>
  Go's builtin \<^verbatim>\<open>copy(dst, src)\<close>: the first \<open>min (len dst) (len src)\<close> bytes of \<open>src\<close>
  overwrite the start of \<open>dst\<close>; the number of bytes copied is returned.
\<close>

definition copy :: "bytes \<Rightarrow> bytes \<Rightarrow> bytes \<times> nat" where
  "copy dst src = (let n = min (length dst) (length src) in (take n src @ drop n dst, n))"

text \<open>\<^verbatim>\<open>len(f.buf) + int(255-f.counter+1)*f.size\<close>, the subtraction and addition on bytes.\<close>

definition remains :: "hkdf \<Rightarrow> nat" where
  "remains f = length (buf f) + unat (255 - counter f + 1) * size_hk f"

text \<open>
  Lines 59 to 64 and 67: one block. The instance is reset, written \<^verbatim>\<open>prev\<close>, \<^verbatim>\<open>info\<close> and
  the counter byte; the digest replaces \<^verbatim>\<open>prev\<close>, the counter is incremented as a byte and
  \<^verbatim>\<open>buf\<close> is the new block.
\<close>

definition next_block :: "hkdf \<Rightarrow> hkdf" where
  "next_block f =
     (let f1 = f\<lparr>prev := expander f (prev f @ info f @ [counter f])\<rparr>;
          f2 = f1\<lparr>counter := counter f1 + 1\<rparr>
      in f2\<lparr>buf := prev f2\<rparr>)"

text \<open>
  The loop \<^verbatim>\<open>for len(p) > 0\<close>. The caller's array is held in two parts: \<open>out\<close>, the bytes
  before the slice \<^verbatim>\<open>p\<close>, and \<open>p\<close> itself, which \<^verbatim>\<open>p = p[n:]\<close> shortens from the left.
  \<open>n\<close> is the count of the last \<^verbatim>\<open>copy\<close>. The loop ends only when \<open>p\<close> is empty; a run
  that never ends is \<open>None\<close>.
\<close>

partial_function (option) fill :: "hkdf \<Rightarrow> bytes \<Rightarrow> bytes \<Rightarrow> nat \<Rightarrow> (hkdf \<times> bytes \<times> nat) option" where
  "fill f out p n =
     (if length p > 0 then
        (let f' = next_block f;
             c = copy p (buf f')
         in fill f' (out @ take (snd c) (fst c)) (drop (snd c) (fst c)) (snd c))
      else Some (f, out @ p, n))"

declare fill.simps [code]

text \<open>
  \<^verbatim>\<open>Read\<close> returns the reader after the call, the caller's array after the call, and the
  two results \<^verbatim>\<open>(int, error)\<close>, \<open>None\<close> being the nil error.
\<close>

definition Read :: "hkdf \<Rightarrow> bytes \<Rightarrow> (hkdf \<times> bytes \<times> nat \<times> error option) option" where
  "Read f p =
     (let need = length p in
      if remains f < need then Some (f, p, 0, Some EntropyLimit)
      else
        (let c = copy p (buf f)
         in case fill f (take (snd c) (fst c)) (drop (snd c) (fst c)) (snd c) of
              None \<Rightarrow> None
            | Some (f', p', n) \<Rightarrow> Some (f'\<lparr>buf := drop n (buf f')\<rparr>, p', need, None)))"

definition Expand :: "hash \<Rightarrow> bytes \<Rightarrow> bytes \<Rightarrow> hkdf" where
  "Expand h pseudorandomKey info0 =
     \<lparr>expander = hmac h pseudorandomKey, size_hk = Size h, info = info0, counter = 1,
      prev = [], buf = []\<rparr>"

definition New :: "hash \<Rightarrow> bytes \<Rightarrow> bytes option \<Rightarrow> bytes \<Rightarrow> hkdf" where
  "New h secret salt info0 = (let prk = Extract h secret salt in Expand h prk info0)"

subsection \<open>Sequences of calls\<close>

text \<open>
  A caller holds one reader and calls \<^verbatim>\<open>Read\<close> on it with one array after another,
  also after a call that returned the error. \<open>reads\<close> returns the reader after the last
  call and, for each call, the array after it and the two results.
\<close>

type_synonym result = "bytes \<times> nat \<times> error option"

fun reads :: "hkdf \<Rightarrow> bytes list \<Rightarrow> (hkdf \<times> result list) option" where
  "reads f [] = Some (f, [])"
| "reads f (p # ps) =
     (case Read f p of
        None \<Rightarrow> None
      | Some (f', r) \<Rightarrow>
          (case reads f' ps of None \<Rightarrow> None | Some (f'', rs) \<Rightarrow> Some (f'', r # rs)))"

text \<open>The bytes a call hands to its caller: the first \<open>n\<close> bytes of the array.\<close>

definition returned :: "result \<Rightarrow> bytes" where
  "returned r = take (fst (snd r)) (fst r)"

definition stream :: "(hkdf \<times> result list) option \<Rightarrow> bytes option" where
  "stream x = map_option (\<lambda>(f, rs). concat (map returned rs)) x"

text \<open>The number of bytes returned by the calls that succeeded.\<close>

definition total :: "result list \<Rightarrow> nat" where
  "total rs = sum_list (map (\<lambda>r. if snd (snd r) = None then fst (snd r) else 0) rs)"

text \<open>
  The reader and the remaining slice at the \<open>i\<close>-th test of \<^verbatim>\<open>len(p) > 0\<close>, counted from
  0, of a loop entered with reader \<open>f\<close> and slice \<open>p\<close>; \<open>None\<close> when the loop has ended
  before that test. Each step is the body of \<open>fill\<close>.
\<close>

fun loop_at :: "hkdf \<Rightarrow> bytes \<Rightarrow> nat \<Rightarrow> (hkdf \<times> bytes) option" where
  "loop_at f p 0 = Some (f, p)"
| "loop_at f p (Suc i) =
     (if length p > 0 then
        (let f' = next_block f;
             c = copy p (buf f')
         in loop_at f' (drop (snd c) (fst c)) i)
      else None)"

subsection \<open>RFC 5869, section 2.3\<close>

text \<open>
  The specification the reader is compared with. \<open>T 0\<close> is empty and
  \<open>T i = HMAC (PRK, T (i - 1) | info | i)\<close> with \<open>i\<close> a single byte; the output keying
  material is \<open>T 1 | T 2 | \<dots> | T 255\<close>.
\<close>

fun T :: "hash \<Rightarrow> bytes \<Rightarrow> bytes \<Rightarrow> nat \<Rightarrow> bytes" where
  "T h prk ctx 0 = []"
| "T h prk ctx (Suc i) = hmac h prk (T h prk ctx i @ ctx @ [of_nat (Suc i)])"

definition OKM :: "hash \<Rightarrow> bytes \<Rightarrow> bytes \<Rightarrow> bytes" where
  "OKM h prk ctx = concat (map (T h prk ctx) [1..<256])"

definition okm_from :: "hash \<Rightarrow> bytes \<Rightarrow> bytes \<Rightarrow> nat \<Rightarrow> bytes" where
  "okm_from h prk ctx k = concat (map (T h prk ctx) [Suc k..<256])"

text \<open>The number of blocks of \<open>sz\<close> bytes needed for \<open>t\<close> bytes.\<close>

definition nblocks :: "nat \<Rightarrow> nat \<Rightarrow> nat" where
  "nblocks sz t = (if sz = 0 then 0 else (t + sz - 1) div sz)"

text \<open>
  The reader that has generated \<open>k\<close> blocks and holds \<open>b\<close> in \<^verbatim>\<open>buf\<close>, and the reader
  that has returned \<open>t\<close> bytes in all.
\<close>

definition at_block :: "hash \<Rightarrow> bytes \<Rightarrow> bytes \<Rightarrow> nat \<Rightarrow> bytes \<Rightarrow> hkdf" where
  "at_block h prk ctx k b =
     \<lparr>expander = hmac h prk, size_hk = Size h, info = ctx, counter = of_nat (Suc k),
      prev = T h prk ctx k, buf = b\<rparr>"

definition state_at :: "hash \<Rightarrow> bytes \<Rightarrow> bytes \<Rightarrow> nat \<Rightarrow> hkdf" where
  "state_at h prk ctx t =
     (let k = nblocks (Size h) t
      in at_block h prk ctx k (drop (t - (k - 1) * Size h) (T h prk ctx k)))"

text \<open>
  A small hash capability for concrete runs: digests of two bytes, the length of the key
  and the sum of the bytes of the message.
\<close>

definition toy :: hash where
  "toy = \<lparr>Size = 2, hmac = (\<lambda>key msg. [of_nat (length key), sum_list msg])\<rparr>"

section \<open>Arithmetic of blocks and of the counter byte\<close>



lemma nblocks_0: "nblocks sz 0 = 0"
  by (simp add: nblocks_def)

lemma nblocks_step: "0 < sz \<Longrightarrow> sz \<le> t \<Longrightarrow> nblocks sz t = Suc (nblocks sz (t - sz))"
proof -
  assume a: "0 < sz" "sz \<le> t"
  then have "t + sz - 1 = (t - sz + sz - 1) + sz" by simp
  then have "(t + sz - 1) div sz = Suc ((t - sz + sz - 1) div sz)"
    using a by (simp only: div_add_self2) 
  then show ?thesis using a by (simp add: nblocks_def)
qed

lemma nblocks_one: "0 < t \<Longrightarrow> t \<le> sz \<Longrightarrow> nblocks sz t = 1"
proof -
  assume a: "0 < t" "t \<le> sz"
  then have "t + sz - 1 = (t - 1) + sz" by simp
  then have "(t + sz - 1) div sz = Suc ((t - 1) div sz)"
    using a by (simp only: div_add_self2)
  then show ?thesis using a by (simp add: nblocks_def)
qed

lemma nblocks_add: "0 < sz \<Longrightarrow> nblocks sz (k * sz + q) = k + nblocks sz q"
proof (induction k)
  case 0 then show ?case by simp
next
  case (Suc k)
  then show ?case using nblocks_step [of sz "Suc k * sz + q"] by simp
qed

lemma nblocks_upper: "0 < sz \<Longrightarrow> t \<le> nblocks sz t * sz"
proof (induction t rule: less_induct)
  case (less t)
  show ?case
  proof (cases "sz \<le> t")
    case True
    then show ?thesis using less.IH [of "t - sz"] less.prems nblocks_step [of sz t] by simp
  next
    case False
    then show ?thesis using nblocks_one [of t sz] by (cases "t = 0") (simp_all add: nblocks_0)
  qed
qed

lemma nblocks_pos: "0 < sz \<Longrightarrow> 0 < t \<Longrightarrow> 0 < nblocks sz t"
  using nblocks_upper [of sz t] by (cases "nblocks sz t") simp_all

lemma nblocks_lower: "0 < sz \<Longrightarrow> 0 < t \<Longrightarrow> (nblocks sz t - 1) * sz < t"
proof (induction t rule: less_induct)
  case (less t)
  show ?case
  proof (cases "sz < t")
    case True
    then have "0 < nblocks sz (t - sz)" using less.prems nblocks_pos [of sz "t - sz"] by simp
    then obtain m where m: "nblocks sz (t - sz) = Suc m" by (cases "nblocks sz (t - sz)") simp_all
    have "m * sz < t - sz" using less.IH [of "t - sz"] less.prems True m by simp
    then show ?thesis using less.prems True nblocks_step [of sz t] m by simp
  next
    case False
    then show ?thesis using nblocks_one [of t sz] less.prems by simp
  qed
qed

lemma nblocks_le: "t \<le> k * sz \<Longrightarrow> nblocks sz t \<le> k"
proof (induction k arbitrary: t)
  case 0 then show ?case by (simp add: nblocks_0)
next
  case (Suc k)
  show ?case
  proof (cases "sz = 0")
    case True then show ?thesis by (simp add: nblocks_def)
  next
    case False
    show ?thesis
    proof (cases "sz \<le> t")
      case True
      then show ?thesis using Suc.IH [of "t - sz"] Suc.prems False nblocks_step [of sz t] by simp
    next
      case False
      then show ?thesis using nblocks_one [of t sz] by (cases "t = 0") (simp_all add: nblocks_0)
    qed
  qed
qed

section \<open>The blocks of the specification\<close>



lemma length_T: "hash_ok h \<Longrightarrow> length (T h prk ctx (Suc i)) = Size h"
  by (simp add: hash_ok_def)

lemma okm_from_step: "k < 255 \<Longrightarrow> okm_from h prk ctx k = T h prk ctx (Suc k) @ okm_from h prk ctx (Suc k)"
  by (simp add: okm_from_def upt_conv_Cons del: T.simps)

lemma okm_from_255: "okm_from h prk ctx 255 = []"
  by (simp add: okm_from_def)

lemma length_okm_from:
  "hash_ok h \<Longrightarrow> k \<le> 255 \<Longrightarrow> length (okm_from h prk ctx k) = (255 - k) * Size h"
proof (induction "255 - k" arbitrary: k)
  case 0
  then have "k = 255" by simp
  then show ?case by (simp add: okm_from_255)
next
  case (Suc d)
  then have k: "k < 255" and d: "d = 255 - Suc k" by simp_all
  have "length (okm_from h prk ctx (Suc k)) = (255 - Suc k) * Size h"
    using Suc.hyps(1) [of "Suc k"] d k Suc.prems by simp
  moreover have "255 - k = Suc (255 - Suc k)" using k by simp
  ultimately show ?case using k Suc.prems(1)
    by (simp add: okm_from_step length_T del: T.simps)
qed

lemma drop_okm:
  "hash_ok h \<Longrightarrow> k \<le> 255 \<Longrightarrow> drop (k * Size h) (okm_from h prk ctx 0) = okm_from h prk ctx k"
proof (induction k)
  case 0 then show ?case by simp
next
  case (Suc k)
  have "drop (Suc k * Size h) (okm_from h prk ctx 0)
        = drop (Size h) (drop (k * Size h) (okm_from h prk ctx 0))"
    by (simp add: add.commute)
  also have "\<dots> = drop (Size h) (okm_from h prk ctx k)" using Suc by simp
  also have "\<dots> = okm_from h prk ctx (Suc k)"
    using Suc.prems by (simp add: okm_from_step length_T del: T.simps)
  finally show ?case .
qed

lemma counter_unat: "k < 255 \<Longrightarrow> unat (of_nat (Suc k) :: byte) = Suc k"
  using unat_of_nat [where 'a = 8, of "Suc k"] by (simp del: of_nat_Suc)

lemma counter_left: "k \<le> 255 \<Longrightarrow> unat (255 - of_nat (Suc k) + 1 :: byte) = 255 - k"
proof -
  assume k: "k \<le> 255"
  have e: "255 - k + Suc k = 256" using k by simp
  have "(of_nat (255 - k) :: byte) + of_nat (Suc k) = of_nat (255 - k + Suc k)"
    by (simp only: of_nat_add)
  also have "\<dots> = 0" unfolding e by simp
  finally have "(of_nat (255 - k) :: byte) = - of_nat (Suc k)"
    by (simp only: eq_neg_iff_add_eq_0)
  then have "(255 - of_nat (Suc k) + 1 :: byte) = of_nat (255 - k)"
    by (simp del: of_nat_Suc)
  then show ?thesis using k unat_of_nat [where 'a = 8, of "255 - k"] by simp
qed

lemma counter_Suc: "(of_nat (Suc k) :: byte) + 1 = of_nat (Suc (Suc k))"
  by simp

section \<open>The loop\<close>



lemma at_block_sel:
  "expander (at_block h prk ctx k b) = hmac h prk"
  "size_hk (at_block h prk ctx k b) = Size h"
  "info (at_block h prk ctx k b) = ctx"
  "counter (at_block h prk ctx k b) = of_nat (Suc k)"
  "prev (at_block h prk ctx k b) = T h prk ctx k"
  "buf (at_block h prk ctx k b) = b"
  by (simp_all add: at_block_def)

lemma at_block_buf: "at_block h prk ctx k b\<lparr>buf := b'\<rparr> = at_block h prk ctx k b'"
  by (simp add: at_block_def)

lemma next_block_at:
  "next_block (at_block h prk ctx k b) = at_block h prk ctx (Suc k) (T h prk ctx (Suc k))"
  by (simp add: next_block_def at_block_def)

lemma fill_nil: "fill f out [] n = Some (f, out, n)"
  by (simp add: fill.simps)

lemma fill_at_block:
  "hash_ok h \<Longrightarrow> p \<noteq> [] \<Longrightarrow> length p \<le> (255 - k) * Size h \<Longrightarrow>
   fill (at_block h prk ctx k b) out p n =
     Some (at_block h prk ctx (k + nblocks (Size h) (length p))
             (T h prk ctx (k + nblocks (Size h) (length p))),
           out @ take (length p) (okm_from h prk ctx k),
           length p - (nblocks (Size h) (length p) - 1) * Size h)"
proof (induction "length p" arbitrary: p k b out n rule: less_induct)
  case less
  let ?sz = "Size h"
  from less.prems have sz: "0 < ?sz" and k: "k < 255"
    by (cases "?sz = 0"; cases "k < 255"; simp)+
  have lenT: "length (T h prk ctx (Suc k)) = ?sz" using less.prems(1) by (rule length_T)
  have okm: "okm_from h prk ctx k = T h prk ctx (Suc k) @ okm_from h prk ctx (Suc k)"
    using k by (rule okm_from_step)
  show ?case
  proof (cases "length p \<le> ?sz")
    case True
    then have nb: "nblocks ?sz (length p) = 1" using less.prems(2) by (simp add: nblocks_one)
    have m: "min (length p) ?sz = length p" using True by simp
    show ?thesis
      using less.prems(2) True lenT
      by (subst fill.simps) (simp add: next_block_at copy_def Let_def m nb okm fill_nil at_block_sel del: T.simps)
  next
    case False
    then have gt: "?sz < length p" by simp
    then have nb: "nblocks ?sz (length p) = Suc (nblocks ?sz (length p - ?sz))"
      using sz by (simp add: nblocks_step)
    have m: "min (length p) ?sz = ?sz" using gt by simp
    let ?q = "drop ?sz p"
    have q: "?q \<noteq> []" "length ?q < length p" using gt sz by simp_all
    have "length p - ?sz \<le> (255 - k) * ?sz - ?sz" using less.prems(3) by simp
    also have "\<dots> = (255 - Suc k) * ?sz" by (simp add: diff_mult_distrib)
    finally have ql: "length ?q \<le> (255 - Suc k) * ?sz" by simp
    have pos: "0 < nblocks ?sz (length p - ?sz)" using sz gt by (simp add: nblocks_pos)
    have up: "(nblocks ?sz (length p - ?sz) - 1) * ?sz < length p - ?sz"
      using sz gt nblocks_lower [of "?sz" "length p - ?sz"] by simp
    have n_eq: "length p - ?sz - (nblocks ?sz (length p - ?sz) - 1) * ?sz
                = length p - nblocks ?sz (length p - ?sz) * ?sz"
    proof -
      obtain j where j: "nblocks ?sz (length p - ?sz) = Suc j"
        using pos by (cases "nblocks ?sz (length p - ?sz)") simp_all
      show ?thesis by (simp add: j)
    qed
    have IH: "fill (at_block h prk ctx (Suc k) (T h prk ctx (Suc k))) (out @ T h prk ctx (Suc k)) ?q ?sz =
       Some (at_block h prk ctx (Suc k + nblocks ?sz (length ?q))
               (T h prk ctx (Suc k + nblocks ?sz (length ?q))),
             (out @ T h prk ctx (Suc k)) @ take (length ?q) (okm_from h prk ctx (Suc k)),
             length ?q - (nblocks ?sz (length ?q) - 1) * ?sz)"
      using less.hyps [OF q(2) less.prems(1) q(1) ql] .
    show ?thesis
      using less.prems(2) gt lenT IH n_eq
      by (subst fill.simps) (simp add: next_block_at copy_def Let_def m nb okm at_block_sel del: T.simps)
  qed
qed

section \<open>One call\<close>



lemma remains_at_block:
  "k \<le> 255 \<Longrightarrow> remains (at_block h prk ctx k b) = length b + (255 - k) * Size h"
  by (simp only: remains_def at_block_sel counter_left)

lemma Read_at_block_buf:
  assumes "length p \<le> length b"
  shows "Read (at_block h prk ctx k b) p =
           Some (at_block h prk ctx k (drop (length p) b), take (length p) b, length p, None)"
proof -
  have "\<not> remains (at_block h prk ctx k b) < length p"
    using assms by (simp add: remains_def at_block_sel)
  moreover have "min (length p) (length b) = length p" using assms by simp
  ultimately show ?thesis
    by (simp add: Read_def Let_def copy_def at_block_sel fill_nil at_block_buf)
qed

lemma Read_at_block_gen:
  assumes ok: "hash_ok h" and k: "k \<le> 255" and gt: "length b < length p"
    and le: "length p \<le> length b + (255 - k) * Size h"
  shows "Read (at_block h prk ctx k b) p =
           Some (at_block h prk ctx (k + nblocks (Size h) (length p - length b))
                   (drop (length p - length b - (nblocks (Size h) (length p - length b) - 1) * Size h)
                      (T h prk ctx (k + nblocks (Size h) (length p - length b)))),
                 b @ take (length p - length b) (okm_from h prk ctx k), length p, None)"
proof -
  have r: "\<not> remains (at_block h prk ctx k b) < length p"
    using le k by (simp add: remains_at_block)
  have m: "min (length p) (length b) = length b" using gt by simp
  have q: "drop (length b) p \<noteq> []" "length (drop (length b) p) \<le> (255 - k) * Size h"
    using gt le by simp_all
  show ?thesis
    using fill_at_block [OF ok q, of prk ctx b b "length b"] r
    by (simp add: Read_def Let_def copy_def at_block_sel m at_block_buf)
qed



lemma OKM_okm_from: "OKM h prk ctx = okm_from h prk ctx 0"
  by (simp add: OKM_def okm_from_def)

lemma nblocks_unique:
  assumes "0 < sz" "0 < k" "(k - 1) * sz < t" "t \<le> k * sz"
  shows "nblocks sz t = k"
proof -
  obtain j where j: "k = Suc j" using assms(2) by (cases k) simp_all
  have "nblocks sz ((k - 1) * sz + (t - (k - 1) * sz)) = (k - 1) + nblocks sz (t - (k - 1) * sz)"
    using assms(1) by (rule nblocks_add)
  moreover have "nblocks sz (t - (k - 1) * sz) = 1"
    using assms j by (intro nblocks_one) simp_all
  ultimately show ?thesis using assms j by simp
qed

lemma state_at_0: "state_at h prk ctx 0 = Expand h prk ctx"
  by (simp add: state_at_def nblocks_0 at_block_def Expand_def)

lemma nblocks_255: "t \<le> 255 * sz \<Longrightarrow> nblocks sz t \<le> 255"
  by (rule nblocks_le)

lemma length_buf_state_at:
  assumes "hash_ok h"
  shows "length (buf (state_at h prk ctx t)) = nblocks (Size h) t * Size h - t"
proof (cases "nblocks (Size h) t")
  case 0
  then show ?thesis by (simp add: state_at_def at_block_sel)
next
  case (Suc j)
  then have sz: "0 < Size h" by (cases "Size h = 0") (simp_all add: nblocks_def)
  have t: "0 < t" using Suc by (cases "t = 0") (simp_all add: nblocks_0)
  have "j * Size h < t" using nblocks_lower [OF sz t] Suc by simp
  moreover have "length (T h prk ctx (Suc j)) = Size h" using assms by (rule length_T)
  ultimately show ?thesis using Suc by (simp add: state_at_def at_block_sel del: T.simps)
qed

lemma remains_state_at:
  assumes "hash_ok h" "t \<le> 255 * Size h"
  shows "remains (state_at h prk ctx t) = 255 * Size h - t"
proof -
  let ?k = "nblocks (Size h) t"
  have k: "?k \<le> 255" using assms(2) by (rule nblocks_255)
  have "remains (state_at h prk ctx t) = length (buf (state_at h prk ctx t)) + (255 - ?k) * Size h"
    using remains_at_block [OF k] by (simp add: state_at_def Let_def at_block_sel)
  also have "\<dots> = (?k * Size h - t) + (255 - ?k) * Size h"
    using assms(1) by (simp add: length_buf_state_at)
  also have "\<dots> = 255 * Size h - t"
  proof (cases "Size h = 0")
    case True then show ?thesis by simp
  next
    case False
    then have "t \<le> ?k * Size h" by (simp add: nblocks_upper)
    moreover have "?k * Size h + (255 - ?k) * Size h = 255 * Size h"
      using k by (simp flip: add_mult_distrib)
    ultimately show ?thesis by simp
  qed
  finally show ?thesis .
qed

lemma drop_OKM:
  assumes ok: "hash_ok h" and t: "t \<le> 255 * Size h"
  shows "drop t (OKM h prk ctx) =
         buf (state_at h prk ctx t) @ okm_from h prk ctx (nblocks (Size h) t)"
proof (cases "nblocks (Size h) t")
  case 0
  show ?thesis
  proof (cases "Size h = 0")
    case True
    then have "length (okm_from h prk ctx 0) = 0" using ok by (simp add: length_okm_from)
    then show ?thesis using 0 by (simp add: state_at_def at_block_sel OKM_okm_from)
  next
    case False
    then have "t = 0" using 0 nblocks_upper [of "Size h" t] by simp
    then show ?thesis using 0 by (simp add: state_at_def at_block_sel OKM_okm_from)
  qed
next
  case (Suc j)
  then have sz: "0 < Size h" by (cases "Size h = 0") (simp_all add: nblocks_def)
  have tpos: "0 < t" using Suc by (cases "t = 0") (simp_all add: nblocks_0)
  have lo: "j * Size h < t" using nblocks_lower [OF sz tpos] Suc by simp
  have hi: "t \<le> Suc j * Size h" using nblocks_upper [OF sz, of t] Suc by simp
  have j: "j < 255" using nblocks_255 [OF t] Suc by simp
  have lenT: "length (T h prk ctx (Suc j)) = Size h" using ok by (rule length_T)
  have "drop t (OKM h prk ctx) = drop (t - j * Size h) (drop (j * Size h) (okm_from h prk ctx 0))"
    using lo by (simp add: OKM_okm_from)
  also have "\<dots> = drop (t - j * Size h) (okm_from h prk ctx j)"
    using ok j by (simp add: drop_okm)
  also have "\<dots> = drop (t - j * Size h) (T h prk ctx (Suc j)) @ okm_from h prk ctx (Suc j)"
    using j hi lenT by (simp add: okm_from_step del: T.simps)
  finally show ?thesis using Suc by (simp add: state_at_def at_block_sel del: T.simps)
qed

lemma Read_state_at_error:
  assumes "hash_ok h" "t \<le> 255 * Size h" "255 * Size h - t < length p"
  shows "Read (state_at h prk ctx t) p = Some (state_at h prk ctx t, p, 0, Some EntropyLimit)"
  using assms by (simp add: Read_def remains_state_at)

lemma Read_state_at:
  assumes ok: "hash_ok h" and t: "t \<le> 255 * Size h" and p: "length p \<le> 255 * Size h - t"
  shows "Read (state_at h prk ctx t) p =
           Some (state_at h prk ctx (t + length p), take (length p) (drop t (OKM h prk ctx)),
                 length p, None)"
proof -
  let ?sz = "Size h"
  let ?k = "nblocks ?sz t"
  let ?b = "buf (state_at h prk ctx t)"
  have st: "state_at h prk ctx t = at_block h prk ctx ?k ?b"
    by (simp add: state_at_def Let_def at_block_sel)
  have lb: "length ?b = ?k * ?sz - t" using ok by (rule length_buf_state_at)
  have k: "?k \<le> 255" using t by (rule nblocks_255)
  have D: "drop t (OKM h prk ctx) = ?b @ okm_from h prk ctx ?k" using ok t by (rule drop_OKM)
  show ?thesis
  proof (cases "length p \<le> length ?b")
    case True
    have same: "state_at h prk ctx (t + length p) = at_block h prk ctx ?k (drop (length p) ?b)"
    proof (cases "length p = 0")
      case True then show ?thesis using st by simp
    next
      case False
      with True lb have pos: "0 < ?k" and sz: "0 < ?sz"
        by (cases "?k = 0"; cases "?sz = 0"; simp)+
      have tp: "0 < t"
        using pos by (cases "t = 0") (simp_all add: nblocks_0)
      have lo: "(?k - 1) * ?sz < t" using sz tp by (rule nblocks_lower)
      have up: "t \<le> ?k * ?sz" using sz by (rule nblocks_upper)
      have "nblocks ?sz (t + length p) = ?k"
        using sz pos lo True lb up by (intro nblocks_unique) simp_all
      then show ?thesis using lo
        by (simp add: state_at_def Let_def at_block_sel at_block_def add.commute del: T.simps)
    qed
    show ?thesis
      using Read_at_block_buf [OF True, of h prk ctx ?k] True
      by (simp add: st [symmetric] same D)
  next
    case False
    then have gt: "length ?b < length p" by simp
    have sz: "0 < ?sz" using p gt by (cases "?sz = 0") simp_all
    have up: "t \<le> ?k * ?sz" using sz by (rule nblocks_upper)
    have le: "length p \<le> length ?b + (255 - ?k) * ?sz"
    proof -
      have "?k * ?sz + (255 - ?k) * ?sz = 255 * ?sz" using k by (simp flip: add_mult_distrib)
      then show ?thesis using p up lb by simp
    qed
    let ?q = "length p - length ?b"
    let ?nb = "nblocks ?sz ?q"
    have qpos: "0 < ?q" using gt by simp
    have nbpos: "0 < ?nb" using sz qpos by (rule nblocks_pos)
    have tq: "t + length p = ?k * ?sz + ?q" using up lb gt by simp
    have nk: "nblocks ?sz (t + length p) = ?k + ?nb"
      unfolding tq using sz by (rule nblocks_add)
    have off: "t + length p - (?k + ?nb - 1) * ?sz = ?q - (?nb - 1) * ?sz"
    proof -
      obtain j where j: "?nb = Suc j" using nbpos by (cases ?nb) simp_all
      have "j * ?sz < ?q" using nblocks_lower [OF sz qpos] j by simp
      then show ?thesis unfolding tq j by (simp add: add_mult_distrib)
    qed
    have same: "state_at h prk ctx (t + length p) =
                at_block h prk ctx (?k + ?nb) (drop (?q - (?nb - 1) * ?sz) (T h prk ctx (?k + ?nb)))"
      using off by (simp add: state_at_def Let_def nk del: T.simps)
    have out: "take (length p) (?b @ okm_from h prk ctx ?k) = ?b @ take ?q (okm_from h prk ctx ?k)"
      using gt by simp
    show ?thesis
      using Read_at_block_gen [OF ok k gt le, of prk ctx]
      by (simp only: st [symmetric] same D out)
  qed
qed

section \<open>Sequences of calls\<close>

lemma length_OKM: "hash_ok h \<Longrightarrow> length (OKM h prk ctx) = 255 * Size h"
  using length_okm_from [of h 0 prk ctx] by (simp add: OKM_okm_from)

lemma total_Cons_ok: "total ((p, n, None) # rs) = n + total rs"
  by (simp add: total_def)

lemma total_Cons_err: "total ((p, n, Some e) # rs) = total rs"
  by (simp add: total_def)

lemma reads_state_at:
  assumes ok: "hash_ok h"
  shows "t \<le> 255 * Size h \<Longrightarrow>
         \<exists>rs. reads (state_at h prk ctx t) ps = Some (state_at h prk ctx (t + total rs), rs)
            \<and> t + total rs \<le> 255 * Size h
            \<and> concat (map returned rs) = take (total rs) (drop t (OKM h prk ctx))"
proof (induction ps arbitrary: t)
  case Nil
  then show ?case by (simp add: total_def)
next
  case (Cons p ps)
  show ?case
  proof (cases "length p \<le> 255 * Size h - t")
    case True
    let ?r = "(take (length p) (drop t (OKM h prk ctx)), length p, None :: error option)"
    have R: "Read (state_at h prk ctx t) p = Some (state_at h prk ctx (t + length p), ?r)"
      using ok Cons.prems True by (rule Read_state_at)
    have t': "t + length p \<le> 255 * Size h" using True Cons.prems by simp
    from Cons.IH [OF t'] obtain rs where
      rs: "reads (state_at h prk ctx (t + length p)) ps
             = Some (state_at h prk ctx (t + length p + total rs), rs)"
      and le: "t + length p + total rs \<le> 255 * Size h"
      and st: "concat (map returned rs) = take (total rs) (drop (t + length p) (OKM h prk ctx))"
      by blast
    have ret: "returned ?r = take (length p) (drop t (OKM h prk ctx))"
      by (simp add: returned_def)
    have "concat (map returned (?r # rs))
          = take (length p) (drop t (OKM h prk ctx))
            @ take (total rs) (drop (length p) (drop t (OKM h prk ctx)))"
      using st ret by (simp add: add.commute)
    also have "\<dots> = take (length p + total rs) (drop t (OKM h prk ctx))"
      by (simp only: take_add)
    finally have st': "concat (map returned (?r # rs))
          = take (total (?r # rs)) (drop t (OKM h prk ctx))"
      by (simp only: total_Cons_ok)
    have "reads (state_at h prk ctx t) (p # ps)
            = Some (state_at h prk ctx (t + total (?r # rs)), ?r # rs)"
      using R rs by (simp add: total_Cons_ok add.assoc)
    moreover have "t + total (?r # rs) \<le> 255 * Size h"
      using le by (simp add: total_Cons_ok add.assoc)
    ultimately show ?thesis using st' by blast
  next
    case False
    let ?r = "(p, 0 :: nat, Some EntropyLimit)"
    have R: "Read (state_at h prk ctx t) p = Some (state_at h prk ctx t, ?r)"
      using ok Cons.prems False by (simp add: Read_state_at_error)
    from Cons.IH [OF Cons.prems] obtain rs where
      rs: "reads (state_at h prk ctx t) ps = Some (state_at h prk ctx (t + total rs), rs)"
      and le: "t + total rs \<le> 255 * Size h"
      and st: "concat (map returned rs) = take (total rs) (drop t (OKM h prk ctx))"
      by blast
    have "reads (state_at h prk ctx t) (p # ps)
            = Some (state_at h prk ctx (t + total (?r # rs)), ?r # rs)"
      using R rs by (simp add: total_Cons_err)
    moreover have "t + total (?r # rs) \<le> 255 * Size h"
      using le by (simp add: total_Cons_err)
    moreover have "concat (map returned (?r # rs))
          = take (total (?r # rs)) (drop t (OKM h prk ctx))"
      using st by (simp add: total_Cons_err returned_def)
    ultimately show ?thesis by blast
  qed
qed

lemma reads_Expand:
  assumes "hash_ok h"
  shows "\<exists>rs. reads (Expand h prk ctx) ps = Some (state_at h prk ctx (total rs), rs)
            \<and> total rs \<le> 255 * Size h
            \<and> concat (map returned rs) = take (total rs) (OKM h prk ctx)"
  using reads_state_at [OF assms, of 0 prk ctx ps] by (simp add: state_at_0)

text \<open>
  The states of \<open>loop_at\<close> are states of the loop of \<open>fill\<close>: from each of them
  \<open>fill\<close> goes on to the same result.
\<close>

lemma fill_loop_at:
  "loop_at f p i = Some (g, q) \<Longrightarrow> \<exists>out' n'. fill f out p n = fill g out' q n'"
proof (induction i arbitrary: f p out n)
  case 0
  then show ?case by auto
next
  case (Suc i)
  from Suc.prems have pne: "0 < length p" by (simp split: if_splits)
  let ?f = "next_block f"
  let ?c = "copy p (buf ?f)"
  have "loop_at ?f (drop (snd ?c) (fst ?c)) i = Some (g, q)"
    using Suc.prems pne by (simp add: Let_def)
  from Suc.IH [OF this, of "out @ take (snd ?c) (fst ?c)" "snd ?c"]
  obtain out' n' where
    "fill ?f (out @ take (snd ?c) (fst ?c)) (drop (snd ?c) (fst ?c)) (snd ?c) = fill g out' q n'"
    by blast
  moreover have "fill f out p n
      = fill ?f (out @ take (snd ?c) (fst ?c)) (drop (snd ?c) (fst ?c)) (snd ?c)"
    using pne by (subst fill.simps) (simp add: Let_def)
  ultimately show ?case by metis
qed

lemma loop_at_at_block:
  assumes ok: "hash_ok h"
  shows "k \<le> 255 \<Longrightarrow> length p \<le> (255 - k) * Size h \<Longrightarrow>
         loop_at (at_block h prk ctx k b) p i = Some (f, q) \<Longrightarrow>
         \<exists>k' b'. f = at_block h prk ctx k' b' \<and> k' \<le> 255 \<and> length q \<le> (255 - k') * Size h"
proof (induction i arbitrary: k b p)
  case 0
  then show ?case by auto
next
  case (Suc i)
  from Suc.prems(3) have pne: "0 < length p" by (simp split: if_splits)
  with Suc.prems(2) have k: "k < 255" and sz: "0 < Size h"
    by (cases "k < 255"; cases "Size h = 0"; simp)+
  have lenT: "length (T h prk ctx (Suc k)) = Size h" using ok by (rule length_T)
  let ?m = "min (length p) (Size h)"
  have step: "loop_at (at_block h prk ctx (Suc k) (T h prk ctx (Suc k))) (drop ?m p) i = Some (f, q)"
    using Suc.prems(3) pne lenT
    by (simp add: next_block_at copy_def Let_def at_block_sel del: T.simps)
  have "length p - ?m \<le> (255 - k) * Size h - Size h" using Suc.prems(2) by simp
  also have "\<dots> = (255 - Suc k) * Size h" by (simp add: diff_mult_distrib)
  finally have len: "length (drop ?m p) \<le> (255 - Suc k) * Size h" by simp
  have "Suc k \<le> 255" using k by simp
  from Suc.IH [OF this len step] show ?case .
qed

lemma reads_Expand_state:
  assumes "hash_ok h" "reads (Expand h prk ctx) ps = Some (f, rs)"
  shows "f = state_at h prk ctx (total rs) \<and> total rs \<le> 255 * Size h
         \<and> concat (map returned rs) = take (total rs) (OKM h prk ctx)"
  using reads_Expand [OF assms(1), of prk ctx ps] assms(2) by auto

lemma reads_total: "hash_ok h \<Longrightarrow> \<exists>f rs. reads (Expand h prk ctx) ps = Some (f, rs)"
  using reads_Expand [of h prk ctx ps] by blast

lemma length_stream:
  assumes "hash_ok h" "total rs \<le> 255 * Size h"
    "concat (map returned rs) = take (total rs) (OKM h prk ctx)"
  shows "length (concat (map returned rs)) = total rs"
  using assms by (simp add: length_OKM)

lemma counter_state_at:
  assumes "t \<le> 255 * Size h"
  shows "unat (counter (state_at h prk ctx t))
         = (if nblocks (Size h) t = 255 then 0 else Suc (nblocks (Size h) t))"
proof -
  have k: "nblocks (Size h) t \<le> 255" using assms by (rule nblocks_255)
  show ?thesis
  proof (cases "nblocks (Size h) t = 255")
    case True
    then show ?thesis by (simp add: state_at_def at_block_sel)
  next
    case False
    then have "nblocks (Size h) t < 255" using k by simp
    then show ?thesis using False
      by (simp only: state_at_def Let_def at_block_sel counter_unat if_False)
  qed
qed

lemma Read_counter_0:
  assumes "hash_ok h" "t \<le> 255 * Size h" "counter (state_at h prk ctx t) = 0"
  shows "Read (state_at h prk ctx t) p =
          (if length p \<le> length (buf (state_at h prk ctx t))
           then Some (state_at h prk ctx t\<lparr>buf := drop (length p) (buf (state_at h prk ctx t))\<rparr>,
                      take (length p) (buf (state_at h prk ctx t)), length p, None)
           else Some (state_at h prk ctx t, p, 0, Some EntropyLimit))"
proof -
  let ?s = "state_at h prk ctx t"
  have st: "?s = at_block h prk ctx (nblocks (Size h) t) (buf ?s)"
    by (simp add: state_at_def Let_def at_block_sel)
  show ?thesis
  proof (cases "length p \<le> length (buf ?s)")
    case True
    have upd: "?s\<lparr>buf := drop (length p) (buf ?s)\<rparr>
               = at_block h prk ctx (nblocks (Size h) t) (drop (length p) (buf ?s))"
      by (simp add: state_at_def Let_def at_block_def)
    have "Read ?s p = Some (at_block h prk ctx (nblocks (Size h) t) (drop (length p) (buf ?s)),
                            take (length p) (buf ?s), length p, None)"
      using Read_at_block_buf [OF True, of h prk ctx "nblocks (Size h) t"]
      by (simp add: st [symmetric])
    then show ?thesis using True by (simp only: upd if_True)
  next
    case False
    have "remains ?s = length (buf ?s)" using assms(3) by (simp add: remains_def)
    then show ?thesis using False by (simp add: Read_def)
  qed
qed

section \<open>Concrete runs\<close>

lemmas run_defs = Read_def Expand_def toy_def remains_def copy_def fill.simps next_block_def Let_def

lemma toy_ok: "hash_ok toy"
  by (simp add: hash_ok_def toy_def)

section \<open>The claims\<close>

text \<open>
  C1: on a reader made by \<open>Expand\<close> and used for any sequence of calls, whenever the loop
  of a further \<open>Read\<close> that passes the check is about to generate a block (the slice still
  to fill is not empty), the counter byte is between 1 and 255; the block is the HMAC
  under the pseudorandom key of the previous block, then info, then that one byte, and it
  is the block \<open>T\<close> of that number of RFC 5869; it becomes the previous block and the
  buffer, and the counter is incremented by one.
\<close>

theorem Read_block_step:
  assumes "hash_ok h"
    and "reads (Expand h prk ctx) ps = Some (f0, rs)"
    and "\<not> remains f0 < length p0"
    and "loop_at f0 (drop (snd (copy p0 (buf f0))) (fst (copy p0 (buf f0)))) i = Some (f, p)"
    and "0 < length p"
  shows "1 \<le> unat (counter f) \<and> unat (counter f) \<le> 255
         \<and> prev (next_block f) = hmac h prk (prev f @ ctx @ [counter f])
         \<and> prev (next_block f) = T h prk ctx (unat (counter f))
         \<and> buf (next_block f) = prev (next_block f)
         \<and> counter (next_block f) = counter f + 1"
proof -
  let ?t = "total rs" and ?sz = "Size h"
  let ?k = "nblocks ?sz ?t"
  have f0: "f0 = state_at h prk ctx ?t" and t: "?t \<le> 255 * ?sz"
    using reads_Expand_state [OF assms(1,2)] by simp_all
  let ?b = "buf f0"
  have st: "f0 = at_block h prk ctx ?k ?b"
    unfolding f0 by (simp add: state_at_def Let_def at_block_sel)
  have k: "?k \<le> 255" using t by (rule nblocks_255)
  have rem: "length p0 \<le> length ?b + (255 - ?k) * ?sz"
    using assms(3) remains_at_block [OF k, of h prk ctx ?b] st by simp
  let ?p1 = "drop (snd (copy p0 ?b)) (fst (copy p0 ?b))"
  have p1: "?p1 = drop (min (length p0) (length ?b)) p0"
    by (simp add: copy_def Let_def)
  have len: "length ?p1 \<le> (255 - ?k) * ?sz" unfolding p1 using rem by simp
  have "loop_at (at_block h prk ctx ?k ?b) ?p1 i = Some (f, p)"
    using assms(4) st by simp
  from loop_at_at_block [OF assms(1) k len this]
  obtain k' b' where f: "f = at_block h prk ctx k' b'" and k': "k' \<le> 255"
    and q: "length p \<le> (255 - k') * ?sz" by blast
  from q assms(5) have lt: "k' < 255" by (cases "k' < 255") simp_all
  have u: "unat (counter f) = Suc k'" unfolding f at_block_sel using lt by (rule counter_unat)
  show ?thesis
    unfolding u unfolding f next_block_at at_block_sel using lt by simp
qed

theorem Read_block_step_witness:
  "hash_ok toy
   \<and> reads (Expand toy [1, 2] [3]) [[7, 7, 7]]
       = Some (Expand toy [1, 2] [3]\<lparr>counter := 3, prev := [2, 11], buf := [11]\<rparr>,
               [([2, 4, 2], 3, None)])
   \<and> \<not> remains (Expand toy [1, 2] [3]\<lparr>counter := 3, prev := [2, 11], buf := [11]\<rparr>)
         < length [7, 7, 7, 7 :: byte]
   \<and> loop_at (Expand toy [1, 2] [3]\<lparr>counter := 3, prev := [2, 11], buf := [11]\<rparr>)
        [7, 7, 7] 1
       = Some (Expand toy [1, 2] [3]\<lparr>counter := 4, prev := [2, 19], buf := [2, 19]\<rparr>, [7])
   \<and> 0 < length [7 :: byte]
   \<and> unat (4 :: byte) \<le> 255
   \<and> prev (next_block (Expand toy [1, 2] [3]\<lparr>counter := 4, prev := [2, 19], buf := [2, 19]\<rparr>))
       = hmac toy [1, 2] ([2, 19] @ [3] @ [4])"
proof -
  let ?a = "Expand toy [1, 2] [3]\<lparr>counter := 3, prev := [2, 11], buf := [11]\<rparr>"
  let ?b = "Expand toy [1, 2] [3]\<lparr>counter := 4, prev := [2, 19], buf := [2, 19]\<rparr>"
  have a: "reads (Expand toy [1, 2] [3]) [[7, 7, 7]] = Some (?a, [([2, 4, 2], 3, None)])"
    by (simp add: run_defs)
  have b: "\<not> remains ?a < length [7, 7, 7, 7 :: byte]"
    by (simp add: run_defs)
  have c: "loop_at ?a (drop (snd (copy [7, 7, 7, 7] (buf ?a))) (fst (copy [7, 7, 7, 7] (buf ?a)))) 1
           = Some (?b, [7])"
    by (simp add: run_defs)
  have c': "loop_at ?a [7, 7, 7] 1 = Some (?b, [7])"
    by (simp add: run_defs)
  have d: "0 < length [7 :: byte]" by simp
  show ?thesis
    using Read_block_step [OF toy_ok a b c d] toy_ok a b c' by (simp add: Expand_def)
qed

text \<open>
  C2, as amended: for every hash that keeps its contract, every key and info and every
  split of a total length of at most 255 digest lengths, a call for the first part followed
  by a call for the second part on one fresh reader returns, concatenated, the bytes that
  one call for the total length returns on a fresh reader: the first bytes of the output
  keying material of RFC 5869.
\<close>

theorem split_read:
  assumes "hash_ok h" and "length pa + length pb \<le> 255 * Size h"
    and "length pl = length pa + length pb"
  shows "stream (reads (Expand h prk ctx) [pa, pb]) = stream (reads (Expand h prk ctx) [pl])
         \<and> stream (reads (Expand h prk ctx) [pl]) = Some (take (length pl) (OKM h prk ctx))"
proof -
  let ?O = "OKM h prk ctx"
  have a: "Read (state_at h prk ctx 0) pa
           = Some (state_at h prk ctx (0 + length pa), take (length pa) (drop 0 ?O), length pa, None)"
    using assms by (intro Read_state_at) simp_all
  have b: "Read (state_at h prk ctx (length pa)) pb
           = Some (state_at h prk ctx (length pa + length pb),
                   take (length pb) (drop (length pa) ?O), length pb, None)"
    using assms by (intro Read_state_at) simp_all
  have l: "Read (state_at h prk ctx 0) pl
           = Some (state_at h prk ctx (0 + length pl), take (length pl) (drop 0 ?O), length pl, None)"
    using assms by (intro Read_state_at) simp_all
  have one: "stream (reads (Expand h prk ctx) [pl]) = Some (take (length pl) ?O)"
    using l by (simp add: state_at_0 stream_def returned_def)
  have "stream (reads (Expand h prk ctx) [pa, pb])
        = Some (take (length pa) ?O @ take (length pb) (drop (length pa) ?O))"
    using a b by (simp add: state_at_0 stream_def returned_def)
  also have "\<dots> = Some (take (length pa + length pb) ?O)" by (simp only: take_add)
  finally show ?thesis using one assms(3) by simp
qed

theorem split_read_witness:
  "hash_ok toy
   \<and> length [7 :: byte] + length [7, 7 :: byte] \<le> 255 * Size toy
   \<and> length [7, 7, 7 :: byte] = length [7 :: byte] + length [7, 7 :: byte]
   \<and> stream (reads (Expand toy [1, 2] [3]) [[7], [7, 7]]) = Some [2, 4, 2]
   \<and> stream (reads (Expand toy [1, 2] [3]) [[7, 7, 7]]) = Some [2, 4, 2]"
proof -
  have a: "length [7 :: byte] + length [7, 7 :: byte] \<le> 255 * Size toy"
    by (simp add: toy_def)
  have b: "length [7, 7, 7 :: byte] = length [7 :: byte] + length [7, 7 :: byte]"
    by simp
  have c: "stream (reads (Expand toy [1, 2] [3]) [[7, 7, 7]]) = Some [2, 4, 2]"
    by (simp add: run_defs stream_def returned_def)
  show ?thesis
    using split_read [OF toy_ok a b, of "[1, 2]" "[3]"] toy_ok a b c by simp
qed

text \<open>
  Beyond the limit the two differ. With digests of two bytes the limit is 510 bytes: a call
  for 1 byte succeeds and the following call for 510 bytes fails, so one byte has been
  returned, while the single call for 511 bytes fails and returns none.
\<close>

theorem split_read_beyond_limit:
  "stream (reads (Expand toy [1, 2] [3]) [[7], replicate 510 7])
   \<noteq> stream (reads (Expand toy [1, 2] [3]) [replicate 511 7])"
  by (simp add: run_defs stream_def returned_def)

text \<open>
  C3: on a fresh reader one call for exactly 255 digest lengths succeeds, returns that
  many bytes (the whole output keying material) and no error; one call for one byte more
  fails with the entropy-limit error.
\<close>

theorem Read_limit_boundary:
  assumes "hash_ok h" and "length p = 255 * Size h" and "length q = 255 * Size h + 1"
  shows "Read (Expand h prk ctx) p
           = Some (state_at h prk ctx (255 * Size h), OKM h prk ctx, 255 * Size h, None)
         \<and> Read (Expand h prk ctx) q = Some (Expand h prk ctx, q, 0, Some EntropyLimit)"
proof -
  have "Read (state_at h prk ctx 0) p
          = Some (state_at h prk ctx (0 + length p), take (length p) (drop 0 (OKM h prk ctx)),
                  length p, None)"
    using assms(1,2) by (intro Read_state_at) simp_all
  moreover have "Read (state_at h prk ctx 0) q = Some (state_at h prk ctx 0, q, 0, Some EntropyLimit)"
    using assms(1,3) by (intro Read_state_at_error) simp_all
  ultimately show ?thesis using assms by (simp add: state_at_0 length_OKM)
qed

theorem Read_limit_boundary_witness:
  "hash_ok toy
   \<and> length (replicate 510 (7 :: byte)) = 255 * Size toy
   \<and> length (replicate 511 (7 :: byte)) = 255 * Size toy + 1
   \<and> Read (Expand toy [1, 2] [3]) (replicate 510 7)
       = Some (state_at toy [1, 2] [3] (255 * Size toy), OKM toy [1, 2] [3], 255 * Size toy, None)
   \<and> Read (Expand toy [1, 2] [3]) (replicate 511 7)
       = Some (Expand toy [1, 2] [3], replicate 511 7, 0, Some EntropyLimit)"
proof -
  have a: "length (replicate 510 (7 :: byte)) = 255 * Size toy" by (simp add: toy_def)
  have b: "length (replicate 511 (7 :: byte)) = 255 * Size toy + 1" by (simp add: toy_def)
  show ?thesis
    using Read_limit_boundary [OF toy_ok a b, of "[1, 2]" "[3]"] toy_ok a b by blast
qed

text \<open>
  C4: every finite sequence of calls on a fresh reader returns; the bytes returned by its
  successful calls are at most 255 digest lengths in all; and a further call returns, with
  the error exactly when it asks for more than what is left of the 255 digest lengths, and
  with no error otherwise.
\<close>

theorem total_bounded:
  assumes "hash_ok h"
  shows "\<exists>f rs. reads (Expand h prk ctx) ps = Some (f, rs)
           \<and> length (concat (map returned rs)) = total rs
           \<and> total rs \<le> 255 * Size h
           \<and> (\<forall>p. \<exists>f' p' n e. Read f p = Some (f', p', n, e)
                  \<and> (e = Some EntropyLimit \<longleftrightarrow> 255 * Size h - total rs < length p)
                  \<and> (e = None \<longleftrightarrow> length p \<le> 255 * Size h - total rs))"
proof -
  from reads_Expand [OF assms, of prk ctx ps] obtain rs where
    r: "reads (Expand h prk ctx) ps = Some (state_at h prk ctx (total rs), rs)"
    and t: "total rs \<le> 255 * Size h"
    and s: "concat (map returned rs) = take (total rs) (OKM h prk ctx)" by blast
  have len: "length (concat (map returned rs)) = total rs"
    using assms t s by (rule length_stream)
  have "\<exists>f' p' n e. Read (state_at h prk ctx (total rs)) p = Some (f', p', n, e)
                  \<and> (e = Some EntropyLimit \<longleftrightarrow> 255 * Size h - total rs < length p)
                  \<and> (e = None \<longleftrightarrow> length p \<le> 255 * Size h - total rs)" for p
  proof (cases "length p \<le> 255 * Size h - total rs")
    case True
    then show ?thesis using Read_state_at [OF assms t True, of prk ctx] by simp
  next
    case False
    then have "255 * Size h - total rs < length p" by simp
    from Read_state_at_error [OF assms t this, of prk ctx] False show ?thesis by simp
  qed
  then show ?thesis using r t len by blast
qed

theorem total_bounded_witness:
  "hash_ok toy
   \<and> reads (Expand toy [1, 2] [3]) [[7, 7, 7], replicate 600 7, [7]]
       = Some (Expand toy [1, 2] [3]\<lparr>counter := 3, prev := [2, 11], buf := []\<rparr>,
               [([2, 4, 2], 3, None), (replicate 600 7, 0, Some EntropyLimit), ([11], 1, None)])
   \<and> total [([2, 4, 2], 3, None), (replicate 600 7, 0, Some EntropyLimit), ([11], 1, None)]
       \<le> 255 * Size toy
   \<and> length (concat (map returned
         [([2, 4, 2], 3, None), (replicate 600 7, 0, Some EntropyLimit), ([11], 1, None)]))
       = total [([2, 4, 2], 3, None), (replicate 600 7, 0, Some EntropyLimit), ([11], 1, None)]"
proof -
  let ?F = "Expand toy [1, 2] [3]\<lparr>counter := 3, prev := [2, 11], buf := []\<rparr>"
  let ?R = "[([2, 4, 2], 3, None), (replicate 600 7, 0, Some EntropyLimit), ([11], 1, None)]
            :: result list"
  have a: "reads (Expand toy [1, 2] [3]) [[7, 7, 7], replicate 600 7, [7]] = Some (?F, ?R)"
    by (simp add: run_defs)
  from total_bounded [OF toy_ok, of "[1, 2]" "[3]" "[[7, 7, 7], replicate 600 7, [7]]"]
  obtain f rs where "reads (Expand toy [1, 2] [3]) [[7, 7, 7], replicate 600 7, [7]] = Some (f, rs)"
    and "length (concat (map returned rs)) = total rs" and "total rs \<le> 255 * Size toy"
    by blast
  with a have "length (concat (map returned ?R)) = total ?R" and "total ?R \<le> 255 * Size toy"
    by simp_all
  with toy_ok a show ?thesis by blast
qed

text \<open>
  C5: whenever \<open>Read\<close> returns the entropy-limit error, the caller's array and the reader
  (counter, previous block, pending buffer and all other fields) are exactly what they were
  before the call, no byte is reported as written, and the cause is that the bytes that
  remain are fewer than the bytes requested.
\<close>

theorem Read_error_leaves_all:
  "Read f p = Some (f', p', n, Some e) \<Longrightarrow> f' = f \<and> p' = p \<and> n = 0 \<and> remains f < length p"
  by (auto simp: Read_def Let_def split: if_splits option.splits)

theorem Read_error_leaves_all_witness:
  "Read (Expand toy [1, 2] [3]) (replicate 511 7)
     = Some (Expand toy [1, 2] [3], replicate 511 7, 0, Some EntropyLimit)
   \<and> remains (Expand toy [1, 2] [3]) < length (replicate 511 (7 :: byte))"
proof -
  have r: "Read (Expand toy [1, 2] [3]) (replicate 511 7)
     = Some (Expand toy [1, 2] [3], replicate 511 7, 0, Some EntropyLimit)"
    by (simp add: Read_def Expand_def toy_def remains_def)
  show ?thesis using r Read_error_leaves_all [OF r] by simp
qed

text \<open>
  C6: for every hash, secret, salt and info, \<open>New\<close> returns the reader that \<open>Expand\<close>
  returns on the key of \<open>Extract\<close>, so every sequence of calls gives the same results and
  the same stream of bytes on both.
\<close>

theorem New_is_Expand_Extract:
  "New h secret salt ctx = Expand h (Extract h secret salt) ctx
   \<and> reads (New h secret salt ctx) ps = reads (Expand h (Extract h secret salt) ctx) ps
   \<and> stream (reads (New h secret salt ctx) ps)
       = stream (reads (Expand h (Extract h secret salt) ctx) ps)"
  by (simp add: New_def)

text \<open>
  C7: for every hash and secret, \<open>Extract\<close> with a nil salt returns the key it returns
  with a salt of \<open>Size\<close> zero bytes.
\<close>

theorem Extract_nil_salt:
  "Extract h secret None = Extract h secret (Some (replicate (Size h) 0))"
  by (simp add: Extract_def)

text \<open>
  C8: on every reader, reachable or not, \<open>Read\<close> with an array of length zero returns
  zero bytes and no error and leaves every field of the reader unchanged.
\<close>

theorem Read_empty:
  "Read f [] = Some (f, [], 0, None)"
  by (simp add: Read_def copy_def fill_nil)

text \<open>
  C9: after every sequence of calls on a fresh reader, with \<open>k\<close> the number of blocks
  generated so far (the bytes returned and the bytes buffered are \<open>k\<close> digest lengths),
  \<open>k\<close> is at most 255 and the stored counter byte is \<open>k + 1\<close>, in 1..255, or 0 when
  \<open>k\<close> is 255; the expression \<^verbatim>\<open>len(f.buf) + int(255-f.counter+1)*f.size\<close>, with the
  arithmetic of bytes, is the number of bytes of the 255 digest lengths not yet returned;
  and when the counter is 0 that expression is the length of the buffer, so a call either
  is served from the buffer alone, leaving counter and previous block as they are, or
  fails: no block is generated with the counter byte 0.
\<close>

theorem counter_and_remains:
  assumes "hash_ok h"
  shows "\<exists>f rs. reads (Expand h prk ctx) ps = Some (f, rs)
           \<and> nblocks (Size h) (total rs) \<le> 255
           \<and> total rs + length (buf f) = nblocks (Size h) (total rs) * Size h
           \<and> unat (counter f)
               = (if nblocks (Size h) (total rs) = 255 then 0 else Suc (nblocks (Size h) (total rs)))
           \<and> remains f = 255 * Size h - total rs
           \<and> (counter f = 0 \<longrightarrow>
                 remains f = length (buf f)
                 \<and> (\<forall>p. Read f p =
                       (if length p \<le> length (buf f)
                        then Some (f\<lparr>buf := drop (length p) (buf f)\<rparr>, take (length p) (buf f),
                                   length p, None)
                        else Some (f, p, 0, Some EntropyLimit))))"
proof -
  from reads_Expand [OF assms, of prk ctx ps] obtain rs where
    r: "reads (Expand h prk ctx) ps = Some (state_at h prk ctx (total rs), rs)"
    and t: "total rs \<le> 255 * Size h" by blast
  let ?s = "state_at h prk ctx (total rs)"
  have k: "nblocks (Size h) (total rs) \<le> 255" using t by (rule nblocks_255)
  have b: "total rs + length (buf ?s) = nblocks (Size h) (total rs) * Size h"
  proof (cases "Size h = 0")
    case True
    then show ?thesis using t assms by (simp add: length_buf_state_at)
  next
    case False
    then have "total rs \<le> nblocks (Size h) (total rs) * Size h" by (simp add: nblocks_upper)
    then show ?thesis using assms by (simp add: length_buf_state_at)
  qed
  have c: "unat (counter ?s)
           = (if nblocks (Size h) (total rs) = 255 then 0 else Suc (nblocks (Size h) (total rs)))"
    using t by (rule counter_state_at)
  have m: "remains ?s = 255 * Size h - total rs" using assms t by (rule remains_state_at)
  have z: "counter ?s = 0 \<longrightarrow>
             remains ?s = length (buf ?s)
             \<and> (\<forall>p. Read ?s p =
                   (if length p \<le> length (buf ?s)
                    then Some (?s\<lparr>buf := drop (length p) (buf ?s)\<rparr>, take (length p) (buf ?s),
                               length p, None)
                    else Some (?s, p, 0, Some EntropyLimit)))"
  proof
    assume z: "counter ?s = 0"
    then have "remains ?s = length (buf ?s)" by (simp add: remains_def)
    then show "remains ?s = length (buf ?s)
             \<and> (\<forall>p. Read ?s p =
                   (if length p \<le> length (buf ?s)
                    then Some (?s\<lparr>buf := drop (length p) (buf ?s)\<rparr>, take (length p) (buf ?s),
                               length p, None)
                    else Some (?s, p, 0, Some EntropyLimit)))"
      using Read_counter_0 [OF assms t z] by blast
  qed
  show ?thesis using r k b c m z by blast
qed

theorem counter_and_remains_witness:
  "hash_ok toy
   \<and> (\<exists>f rs. reads (Expand toy [1, 2] [3]) [replicate 510 7] = Some (f, rs)
         \<and> total rs = 510 \<and> counter f = 0 \<and> buf f = [] \<and> remains f = 0
         \<and> Read f [7] = Some (f, [7], 0, Some EntropyLimit))"
proof -
  have a: "map_option (\<lambda>(f, rs). (counter f, buf f, total rs))
             (reads (Expand toy [1, 2] [3]) [replicate 510 7]) = Some (0, [], 510)"
    by (simp add: run_defs total_def)
  from counter_and_remains [OF toy_ok, of "[1, 2]" "[3]" "[replicate 510 7]"]
  obtain f rs where r: "reads (Expand toy [1, 2] [3]) [replicate 510 7] = Some (f, rs)"
    and m: "remains f = 255 * Size toy - total rs"
    and z: "counter f = 0 \<longrightarrow>
                 remains f = length (buf f)
                 \<and> (\<forall>p. Read f p =
                       (if length p \<le> length (buf f)
                        then Some (f\<lparr>buf := drop (length p) (buf f)\<rparr>, take (length p) (buf f),
                                   length p, None)
                        else Some (f, p, 0, Some EntropyLimit)))"
    by blast
  from a r have c: "counter f = 0" and b: "buf f = []" and t: "total rs = 510" by simp_all
  from z c b have "Read f [7] = Some (f, [7], 0, Some EntropyLimit)" by simp
  moreover from m t have "remains f = 0" by (simp add: toy_def)
  ultimately show ?thesis using toy_ok r c b t by blast
qed

text \<open>
  C10: \<open>Extract\<close> replaces the salt by \<open>Size\<close> zero bytes only when it is nil. A salt
  that is present is the HMAC key as it is, the empty one too, so the empty key and not
  the zero-filled one is handed to HMAC; on the hash \<open>toy\<close> the two keys give different
  results.
\<close>

theorem Extract_salt_key:
  "Extract h secret (Some []) = hmac h [] secret
   \<and> Extract h secret (Some salt) = hmac h salt secret
   \<and> Extract h secret None = hmac h (replicate (Size h) 0) secret
   \<and> Extract toy secret (Some []) \<noteq> Extract toy secret None"
  by (simp add: Extract_def toy_def)

end
